theory Spec2Isabelle
  imports Main
begin

section \<open>NodePersist: a persistence engine over node-persist (src/index.js)\<close>

text \<open>
  The class \<^verbatim>\<open>NodePersist\<close> of \<^verbatim>\<open>src/index.js\<close> is embedded here. It has two parts:
  the static directory lock (\<^verbatim>\<open>#cacheDirectories\<close>, \<^verbatim>\<open>#lockDirectory\<close>,
  \<^verbatim>\<open>#unlockDirectory\<close>), which is built from JavaScript promises, a timer and the
  job queue of the event loop, and the public methods (\<^verbatim>\<open>get\<close>, \<^verbatim>\<open>set\<close>, \<^verbatim>\<open>del\<close>,
  \<^verbatim>\<open>ttl\<close>, \<^verbatim>\<open>load\<close>, \<^verbatim>\<open>flush\<close>, \<^verbatim>\<open>close\<close>), each an \<^verbatim>\<open>async\<close> function over
  the underlying store, the Bottleneck limiter and the owning cache. The methods are
  given twice: as functions from the state before a call to the result and the state
  after it, for one call at a time; and, for \<^verbatim>\<open>get\<close>, \<^verbatim>\<open>set\<close> and \<^verbatim>\<open>del\<close>, as jobs
  on the queue of the event loop, for calls that overlap.

  JavaScript numbers that hold millisecond timestamps are integers far below \<open>2^53\<close>
  and are modelled as \<^typ>\<open>int\<close>; \<^verbatim>\<open>undefined\<close> is \<^term>\<open>None\<close>.
\<close>

subsection \<open>Errors and promise states\<close>

datatype error =
    AlreadyLocked string
  | UnlockNotAFunction
  | LimiterStopped
  | StopAlreadyCalled
  | StoreError string

text \<open>
  \<^term>\<open>AlreadyLocked d\<close> is the \<^verbatim>\<open>Error\<close> built at line 40 of \<^verbatim>\<open>src/index.js\<close>
  ("Another NodePersist engine has already locked directory 'd'; use prefix ...").
  \<^term>\<open>UnlockNotAFunction\<close> is the \<^verbatim>\<open>TypeError\<close> that line 80 throws when the value
  found under the directory has no \<^verbatim>\<open>unlock\<close> method.
  \<^term>\<open>LimiterStopped\<close> and \<^term>\<open>StopAlreadyCalled\<close> are the two errors of the Bottleneck
  library ("This limiter has been stopped and cannot accept new jobs." and
  "stop() has already been called"); \<^term>\<open>StoreError\<close> is any failure of node-persist.

  A promise is pending, fulfilled with a value, or rejected with an error. The same type
  describes what an \<^verbatim>\<open>async\<close> method returns: \<^term>\<open>Pending\<close> there means that the method
  is still suspended at an \<^verbatim>\<open>await\<close>.
\<close>

datatype 'a promise = Pending | Fulfilled 'a | Rejected error

subsection \<open>The directory lock\<close>

text \<open>
  \<^verbatim>\<open>#cacheDirectories\<close> maps a directory to a record \<^verbatim>\<open>{lock, unlock}\<close>, where
  \<^verbatim>\<open>lock\<close> is a promise and \<^verbatim>\<open>unlock\<close> is its resolve function. A record is
  identified by the number of its lock promise. A lock promise is either fulfilled or
  not, and holds the reactions registered on it by \<^verbatim>\<open>then\<close> while it is pending: here
  the numbers of the calls of \<^verbatim>\<open>#lockDirectory\<close> that follow it.

\<close>

record lock_promise =
  fulfilled :: bool
  reactions :: "nat list"

text \<open>
  One call of \<^verbatim>\<open>#lockDirectory\<close> builds two promises: the one of
  \<^verbatim>\<open>new Promise(executor)\<close> (\<open>outer\<close>) and the one that \<^verbatim>\<open>.then(callback)\<close> returns
  (\<open>acquired\<close>), which is the value of the call. \<open>alreadyResolved\<close> is the flag that
  the \<^verbatim>\<open>resolve\<close> and \<^verbatim>\<open>reject\<close> functions handed to the executor share (ECMAScript,
  CreateResolvingFunctions): the first call of either sets it, every later call of either
  returns at once. \<open>attached\<close> says whether \<^verbatim>\<open>.then(callback)\<close> has been called on the
  outer promise; \<open>own\<close> is the lock promise the callback created, once it has run.
\<close>

record attempt =
  adir :: string
  alreadyResolved :: bool
  attached :: bool
  outer :: "unit promise"
  acquired :: "bool promise"
  own :: "nat option"

text \<open>
  The jobs of the promise job queue (microtasks):
  \<^item> \<open>ResolveThenable a l\<close>: the outer promise of call \<open>a\<close> was resolved with the lock
    promise \<open>l\<close>; the job calls \<^verbatim>\<open>l.then(resolve', reject')\<close>;
  \<^item> \<open>ThenableSettled a\<close>: lock promise followed by \<open>a\<close> is fulfilled; the job calls
    \<^verbatim>\<open>resolve'(undefined)\<close>, which fulfils the outer promise of \<open>a\<close>;
  \<^item> \<open>OnFulfilled a\<close>: the callback given to \<^verbatim>\<open>.then\<close> at lines 50-65;
  \<^item> \<open>OnRejected a err\<close>: the outer promise was rejected; \<^verbatim>\<open>.then\<close> has no rejection
    handler, so the promise it returned is rejected with the same error.
\<close>

datatype job =
    ResolveThenable nat nat
  | ThenableSettled nat
  | OnFulfilled nat
  | OnRejected nat error

text \<open>
  The registry is the plain object \<^verbatim>\<open>{}\<close> of line 17, read and written with
  \<^verbatim>\<open>#cacheDirectories[directory]\<close>. \<open>cacheDirectories\<close> holds its own properties, the
  records stored under directory names. A read that finds no own property goes on along
  the prototype chain. The prototype of the registry is \<^verbatim>\<open>Object.prototype\<close>
  (\<open>prototype = None\<close>) until a record is assigned under the name \<^verbatim>\<open>__proto__\<close>: that
  name is an accessor of \<^verbatim>\<open>Object.prototype\<close> whose setter makes the assigned record the
  prototype of the registry (\<open>prototype = Some l\<close>) and creates no own property.

  \<open>object_prototype_names\<close> are the properties of \<^verbatim>\<open>Object.prototype\<close> besides
  \<^verbatim>\<open>__proto__\<close>; each holds a function. What a read yields is a \<open>property\<close>:
  \<^verbatim>\<open>undefined\<close> (\<open>Absent\<close>), a record \<^verbatim>\<open>{lock, unlock}\<close> (\<open>Record l\<close>), or an inherited
  value that is not a record (\<open>Inherited\<close>): a function, \<^verbatim>\<open>Object.prototype\<close> itself, or
  the \<^verbatim>\<open>lock\<close> or \<^verbatim>\<open>unlock\<close> member of a record that has become the prototype. An
  inherited value is truthy and has neither a \<^verbatim>\<open>lock\<close> nor an \<^verbatim>\<open>unlock\<close> property.
\<close>

datatype property = Absent | Record nat | Inherited

definition object_prototype_names :: "string list" where
  "object_prototype_names =
     [''constructor'', ''hasOwnProperty'', ''isPrototypeOf'', ''propertyIsEnumerable'',
      ''toLocaleString'', ''toString'', ''valueOf'', ''__defineGetter__'',
      ''__defineSetter__'', ''__lookupGetter__'', ''__lookupSetter__'']"

record lstate =
  cacheDirectories :: "string \<rightharpoonup> nat"
  prototype :: "nat option"
  locks :: "nat \<Rightarrow> lock_promise"
  next_lock :: nat
  attempts :: "nat \<Rightarrow> attempt"
  next_attempt :: nat
  microtasks :: "job list"
  timer :: "nat \<rightharpoonup> nat"
  clock :: nat

definition fresh_attempt :: "string \<Rightarrow> attempt" where
  "fresh_attempt d =
     \<lparr>adir = d, alreadyResolved = False, attached = False, outer = Pending,
      acquired = Pending, own = None\<rparr>"

definition init :: lstate where
  "init =
     \<lparr>cacheDirectories = Map.empty,
      prototype = None,
      locks = (\<lambda>l. \<lparr>fulfilled = False, reactions = []\<rparr>),
      next_lock = 0,
      attempts = (\<lambda>a. fresh_attempt []),
      next_attempt = 0,
      microtasks = [],
      timer = Map.empty,
      clock = 0\<rparr>"

text \<open>\<^verbatim>\<open>NodePersist.#cacheDirectories[d]\<close> as a value, and the assignment
  \<^verbatim>\<open>NodePersist.#cacheDirectories[d] = {lock, unlock}\<close> of lines 57-60.\<close>

definition lookup :: "lstate \<Rightarrow> string \<Rightarrow> property" where
  "lookup s d =
     (case cacheDirectories s d of
        Some l \<Rightarrow> Record l
      | None \<Rightarrow>
          if d = ''__proto__''
          then (case prototype s of None \<Rightarrow> Inherited | Some l \<Rightarrow> Record l)
          else if d \<in> set object_prototype_names then Inherited
          else if (d = ''lock'' \<or> d = ''unlock'') \<and> prototype s \<noteq> None then Inherited
          else Absent)"

definition store_record :: "string \<Rightarrow> nat \<Rightarrow> lstate \<Rightarrow> lstate" where
  "store_record d l s =
     (if d = ''__proto__'' then s\<lparr>prototype := Some l\<rparr>
      else s\<lparr>cacheDirectories := (cacheDirectories s)(d \<mapsto> l)\<rparr>)"

definition enqueue :: "job list \<Rightarrow> lstate \<Rightarrow> lstate" where
  "enqueue js s = s\<lparr>microtasks := microtasks s @ js\<rparr>"

text \<open>FulfillPromise and RejectPromise on the outer promise: the state changes and the
  reaction attached by \<^verbatim>\<open>.then\<close>, if any, is queued as a job.\<close>

definition fulfil_outer :: "nat \<Rightarrow> lstate \<Rightarrow> lstate" where
  "fulfil_outer a s =
     enqueue (if attached (attempts s a) then [OnFulfilled a] else [])
       (s\<lparr>attempts := (attempts s)(a := (attempts s a)\<lparr>outer := Fulfilled ()\<rparr>)\<rparr>)"

definition reject_outer :: "nat \<Rightarrow> error \<Rightarrow> lstate \<Rightarrow> lstate" where
  "reject_outer a err s =
     enqueue (if attached (attempts s a) then [OnRejected a err] else [])
       (s\<lparr>attempts := (attempts s)(a := (attempts s a)\<lparr>outer := Rejected err\<rparr>)\<rparr>)"

definition mark_resolved :: "nat \<Rightarrow> lstate \<Rightarrow> lstate" where
  "mark_resolved a s =
     s\<lparr>attempts := (attempts s)(a := (attempts s a)\<lparr>alreadyResolved := True\<rparr>)\<rparr>"

text \<open>
  The two functions the executor receives. \<open>resolve_fn a x\<close> is \<^verbatim>\<open>resolve(x)\<close>, where
  \<open>x\<close> is \<^verbatim>\<open>undefined\<close> (\<^term>\<open>None\<close>) or a lock promise: a promise is a thenable, so the
  outer promise is not settled but a \<open>ResolveThenable\<close> job is queued. \<open>reject_fn a err\<close>
  is \<^verbatim>\<open>reject(err)\<close>. Both do nothing once \<open>alreadyResolved\<close> is set.
\<close>

definition resolve_fn :: "nat \<Rightarrow> nat option \<Rightarrow> lstate \<Rightarrow> lstate" where
  "resolve_fn a x s =
     (if alreadyResolved (attempts s a) then s
      else (case x of
              None \<Rightarrow> fulfil_outer a (mark_resolved a s)
            | Some l \<Rightarrow> enqueue [ResolveThenable a l] (mark_resolved a s)))"

definition reject_fn :: "nat \<Rightarrow> error \<Rightarrow> lstate \<Rightarrow> lstate" where
  "reject_fn a err s =
     (if alreadyResolved (attempts s a) then s
      else reject_outer a err (mark_resolved a s))"

text \<open>\<^verbatim>\<open>.then(callback)\<close> on the outer promise: the reaction is stored, and queued at once
  when the promise is already settled.\<close>

definition then_attach :: "nat \<Rightarrow> lstate \<Rightarrow> lstate" where
  "then_attach a s =
     enqueue (case outer (attempts s a) of
                Pending \<Rightarrow> []
              | Fulfilled u \<Rightarrow> [OnFulfilled a]
              | Rejected err \<Rightarrow> [OnRejected a err])
       (s\<lparr>attempts := (attempts s)(a := (attempts s a)\<lparr>attached := True\<rparr>)\<rparr>)"

text \<open>\<^verbatim>\<open>setTimeout(() => reject(new Error(...)), 500)\<close>: the timer of call \<open>a\<close> is due
  500 ms after the current time.\<close>

definition setTimeout :: "nat \<Rightarrow> nat \<Rightarrow> lstate \<Rightarrow> lstate" where
  "setTimeout a ms s = s\<lparr>timer := (timer s)(a \<mapsto> clock s + ms)\<rparr>"

text \<open>
  \<^verbatim>\<open>#lockDirectory(directory, forEngine)\<close>, lines 28-66, up to the point where it returns
  its promise: the executor runs synchronously (lines 32-49), then \<^verbatim>\<open>.then\<close> attaches
  the callback. The test of line 32 holds for a record and for an inherited value; line
  43 resolves with the \<^verbatim>\<open>lock\<close> property of what was found, which for an inherited
  value is \<^verbatim>\<open>undefined\<close>. The result is the number of the call and the new state; the
  promise the call returns is \<open>acquired\<close> of that number.
\<close>

definition lockDirectory :: "string \<Rightarrow> lstate \<Rightarrow> nat \<times> lstate" where
  "lockDirectory d s =
     (let a = next_attempt s;
          s0 = s\<lparr>attempts := (attempts s)(a := fresh_attempt d), next_attempt := Suc a\<rparr>;
          s1 = (case lookup s0 d of
                  Record l \<Rightarrow> resolve_fn a (Some l) (setTimeout a 500 s0)
                | Inherited \<Rightarrow> resolve_fn a None (setTimeout a 500 s0)
                | Absent \<Rightarrow> resolve_fn a None s0)
      in (a, then_attach a s1))"

text \<open>\<^verbatim>\<open>unlock()\<close>, the resolve function of a lock promise, called with no argument: the
  promise is fulfilled and its reactions are queued in the order they were registered.\<close>

definition resolve_lock :: "nat \<Rightarrow> lstate \<Rightarrow> lstate" where
  "resolve_lock l s =
     (if fulfilled (locks s l) then s
      else enqueue (map ThenableSettled (reactions (locks s l)))
             (s\<lparr>locks := (locks s)(l := \<lparr>fulfilled = True, reactions = []\<rparr>)\<rparr>))"

text \<open>
  \<^verbatim>\<open>#unlockDirectory(directory, forEngine)\<close>, lines 74-87: it returns \<^verbatim>\<open>true\<close>
  (\<open>Inr True\<close>) or throws (\<open>Inl\<close>). For a record, line 80 calls its \<^verbatim>\<open>unlock\<close> and
  line 81 deletes the own property of that name, if there is one. For an inherited value
  the test of line 77 holds too, and line 80 throws, since the value has no \<^verbatim>\<open>unlock\<close>.
\<close>

definition unlockDirectory :: "string \<Rightarrow> lstate \<Rightarrow> (error + bool) \<times> lstate" where
  "unlockDirectory d s =
     (case lookup s d of
        Record l \<Rightarrow>
          (Inr True, (resolve_lock l s)\<lparr>cacheDirectories := (cacheDirectories s)(d := None)\<rparr>)
      | Inherited \<Rightarrow> (Inl UnlockNotAFunction, s)
      | Absent \<Rightarrow> (Inr True, s))"

text \<open>
  One job. The callback of lines 50-65 (\<open>OnFulfilled\<close>) creates a new pending lock
  promise, stores the record under the directory and returns \<^verbatim>\<open>true\<close>, which fulfils the
  promise that \<^verbatim>\<open>.then\<close> returned.
\<close>

fun run_job :: "job \<Rightarrow> lstate \<Rightarrow> lstate" where
  "run_job (ResolveThenable a l) s =
     (if fulfilled (locks s l) then enqueue [ThenableSettled a] s
      else s\<lparr>locks := (locks s)(l := (locks s l)\<lparr>reactions := reactions (locks s l) @ [a]\<rparr>)\<rparr>)"
| "run_job (ThenableSettled a) s =
     (if outer (attempts s a) = Pending then fulfil_outer a s else s)"
| "run_job (OnFulfilled a) s =
     (store_record (adir (attempts s a)) (next_lock s) s)
       \<lparr>locks := (locks s)(next_lock s := \<lparr>fulfilled = False, reactions = []\<rparr>),
        next_lock := Suc (next_lock s),
        attempts := (attempts s)(a := (attempts s a)\<lparr>acquired := Fulfilled True, own := Some (next_lock s)\<rparr>)\<rparr>"
| "run_job (OnRejected a err) s =
     s\<lparr>attempts := (attempts s)(a := (attempts s a)\<lparr>acquired := Rejected err\<rparr>)\<rparr>"

text \<open>
  What can happen next in the process: a call of \<^verbatim>\<open>#lockDirectory\<close> (a constructor), a
  call of \<^verbatim>\<open>#unlockDirectory\<close> (a \<^verbatim>\<open>close\<close>), the first job of the queue, time passing,
  or the timer of a call firing. A timer fires no earlier than it is due, and only
  between tasks, when the job queue is empty; its callback is line 40.
\<close>

datatype event = Lock string | Unlock string | Microtask | Sleep nat | Timeout nat

fun step :: "event \<Rightarrow> lstate \<Rightarrow> lstate option" where
  "step (Lock d) s = Some (snd (lockDirectory d s))"
| "step (Unlock d) s = Some (snd (unlockDirectory d s))"
| "step Microtask s =
     (case microtasks s of
        [] \<Rightarrow> None
      | j # js \<Rightarrow> Some (run_job j (s\<lparr>microtasks := js\<rparr>)))"
| "step (Sleep n) s = Some (s\<lparr>clock := clock s + n\<rparr>)"
| "step (Timeout a) s =
     (case timer s a of
        None \<Rightarrow> None
      | Some due \<Rightarrow>
          if due \<le> clock s \<and> microtasks s = []
          then Some (reject_fn a (AlreadyLocked (adir (attempts s a)))
                       (s\<lparr>timer := (timer s)(a := None)\<rparr>))
          else None)"

fun run :: "event list \<Rightarrow> lstate \<Rightarrow> lstate option" where
  "run [] s = Some s"
| "run (e # es) s = (case step e s of None \<Rightarrow> None | Some s' \<Rightarrow> run es s')"

definition reachable :: "lstate \<Rightarrow> bool" where
  "reachable s = (\<exists>es. run es init = Some s)"

subsection \<open>The engine\<close>

text \<open>
  The calls the underlying store (node-persist) can receive from the engine. The third
  argument of \<open>UpdateItem\<close> is the \<^verbatim>\<open>ttl\<close> of the options object \<^verbatim>\<open>{ ttl }\<close>.
\<close>

datatype 'v store_call =
    Init
  | GetItem string
  | UpdateItem string "'v option" "int option"
  | RemoveItem string
  | Clear
  | ForEach

text \<open>
  An engine instance: \<^verbatim>\<open>#directory\<close>; \<^verbatim>\<open>#ready\<close>, a promise; the state of the
  Bottleneck limiter \<^verbatim>\<open>#limiter\<close> (whether \<^verbatim>\<open>stop\<close> has been called); the owning cache
  \<^verbatim>\<open>this.cache\<close> with its \<^verbatim>\<open>getTtl\<close> and \<^verbatim>\<open>get\<close>; and the underlying store
  \<^verbatim>\<open>#engine\<close>, given by what it answers to a call (\<open>store\<close>) together with the list of
  the calls it has received so far (\<open>received\<close>).
\<close>

record 'v engine =
  directory :: string
  ready :: "unit promise"
  stopped :: bool
  getTtl :: "string \<Rightarrow> int option"
  cache_get :: "string \<Rightarrow> 'v option"
  store :: "'v store_call \<Rightarrow> 'v option promise"
  received :: "'v store_call list"

text \<open>
  The constructor, lines 89-122, for the directory \<open>dir\<close> it computed: \<^verbatim>\<open>#ready\<close> is
  resolved by the callback chained on \<^verbatim>\<open>#lockDirectory\<close> (line 120), rejected by
  \<^verbatim>\<open>.catch(readyReject)\<close> (line 121) with the error of the lock, and pending as long as
  the lock promise is. \<open>lock_result\<close> is the state of the promise that
  \<^verbatim>\<open>#lockDirectory\<close> returned.
\<close>

definition ready_of :: "bool promise \<Rightarrow> unit promise" where
  "ready_of lock_result =
     (case lock_result of
        Pending \<Rightarrow> Pending
      | Fulfilled b \<Rightarrow> Fulfilled ()
      | Rejected err \<Rightarrow> Rejected err)"

definition constructor ::
  "string \<Rightarrow> (string \<Rightarrow> int option) \<Rightarrow> (string \<Rightarrow> 'v option) \<Rightarrow>
   ('v store_call \<Rightarrow> 'v option promise) \<Rightarrow> bool promise \<Rightarrow> 'v engine" where
  "constructor dir cache_ttl cache_val st lock_result =
     \<lparr>directory = dir, ready = ready_of lock_result, stopped = False,
      getTtl = cache_ttl, cache_get = cache_val, store = st, received = []\<rparr>"

text \<open>
  \<^verbatim>\<open>await p\<close> inside an \<^verbatim>\<open>async\<close> function: the function goes on with the value of
  \<open>p\<close> when \<open>p\<close> is fulfilled; when \<open>p\<close> is rejected the function throws, so that the
  promise it returned is rejected with the same error; while \<open>p\<close> is pending the function
  is suspended and has done nothing further. A method that is suspended at
  \<^verbatim>\<open>await this.#ready\<close> goes on when \<^verbatim>\<open>#ready\<close> settles: its result is then the one these
  definitions give for the settled engine.
\<close>

definition await :: "'a promise \<times> 's \<Rightarrow> ('a \<Rightarrow> 's \<Rightarrow> 'b promise \<times> 's) \<Rightarrow> 'b promise \<times> 's" where
  "await r k =
     (case fst r of
        Pending \<Rightarrow> (Pending, snd r)
      | Fulfilled x \<Rightarrow> k x (snd r)
      | Rejected err \<Rightarrow> (Rejected err, snd r))"

text \<open>A call of the underlying store: the store receives it and answers.\<close>

definition call_store :: "'v engine \<Rightarrow> 'v store_call \<Rightarrow> 'v option promise \<times> 'v engine" where
  "call_store e c = (store e c, e\<lparr>received := received e @ [c]\<rparr>)"

text \<open>
  The limiter is Bottleneck with \<^verbatim>\<open>maxConcurrent: 1\<close>, a library outside the
  repository. \<^verbatim>\<open>schedule(f, args)\<close> runs the call and returns its result, unless the
  limiter has been stopped: then it rejects the job. \<^verbatim>\<open>stop({dropWaitingJobs: false})\<close>
  lets the jobs already queued finish, resolves, and turns the limiter off; Bottleneck
  replaces \<^verbatim>\<open>stop\<close> on the first call, so that every later call returns a promise
  rejected with "stop() has already been called".

  Here a method call runs to its end before the next one starts. No earlier call is in
  flight when \<open>schedule\<close> is reached, so the limiter hands the call to the store at
  once; and no job is running or queued when \<open>stop\<close> is reached, so it resolves at
  once. Calls that overlap are modelled on the job queue further down.
\<close>

definition schedule :: "'v engine \<Rightarrow> 'v store_call \<Rightarrow> 'v option promise \<times> 'v engine" where
  "schedule e c = (if stopped e then (Rejected LimiterStopped, e) else call_store e c)"

definition stop :: "'v engine \<Rightarrow> unit promise \<times> 'v engine" where
  "stop e =
     (if stopped e then (Rejected StopAlreadyCalled, e)
      else (Fulfilled (), e\<lparr>stopped := True\<rparr>))"

text \<open>\<^verbatim>\<open>if (x)\<close> on a number or \<^verbatim>\<open>undefined\<close>: \<^verbatim>\<open>undefined\<close> and \<open>0\<close> are falsy.\<close>

definition truthy :: "int option \<Rightarrow> bool" where
  "truthy x = (case x of None \<Rightarrow> False | Some n \<Rightarrow> n \<noteq> 0)"

text \<open>\<^verbatim>\<open>get(key)\<close>, lines 140-146.\<close>

definition get :: "'v engine \<Rightarrow> string \<Rightarrow> 'v option promise \<times> 'v engine" where
  "get e k = await (ready e, e) (\<lambda>u e. schedule e (GetItem k))"

text \<open>\<^verbatim>\<open>del(key)\<close>, lines 189-199.\<close>

definition del :: "'v engine \<Rightarrow> string \<Rightarrow> 'v option promise \<times> 'v engine" where
  "del e k = await (ready e, e) (\<lambda>u e. schedule e (RemoveItem k))"

text \<open>Lines 175-179 of \<^verbatim>\<open>set\<close>: the upsert through the limiter, then \<^verbatim>\<open>return val\<close>.\<close>

definition upsert ::
  "'v engine \<Rightarrow> string \<Rightarrow> 'v option \<Rightarrow> int option \<Rightarrow> 'v option promise \<times> 'v engine" where
  "upsert e k v t = await (schedule e (UpdateItem k v t)) (\<lambda>r e. (Fulfilled v, e))"

text \<open>
  \<^verbatim>\<open>set(key, val, ttl)\<close>, lines 157-180; \<open>now\<close> is what \<^verbatim>\<open>Date.now()\<close> returns at line
  165. With no \<^verbatim>\<open>ttl\<close> argument the absolute expiration of the owning cache is turned into
  the time that is left, and a key whose expiration has passed is deleted instead.
\<close>

definition set_item ::
  "int \<Rightarrow> 'v engine \<Rightarrow> string \<Rightarrow> 'v option \<Rightarrow> int option \<Rightarrow> 'v option promise \<times> 'v engine" where
  "set_item now e k v t =
     await (ready e, e) (\<lambda>u e.
       case t of
         Some n \<Rightarrow> upsert e k v (Some n)
       | None \<Rightarrow>
           (case getTtl e k of
              None \<Rightarrow> upsert e k v None
            | Some x \<Rightarrow>
                if truthy (Some x)
                then (if x - now < 0
                      then await (del e k) (\<lambda>r e. (Fulfilled None, e))
                      else upsert e k v (Some (x - now)))
                else upsert e k v (Some x)))"

text \<open>\<^verbatim>\<open>ttl(key, ttl)\<close>, lines 209-227.\<close>

definition ttl ::
  "int \<Rightarrow> 'v engine \<Rightarrow> string \<Rightarrow> int option \<Rightarrow> 'v option promise \<times> 'v engine" where
  "ttl now e k t =
     await (ready e, e) (\<lambda>u e.
       case cache_get e k of
         None \<Rightarrow> (Fulfilled None, e)
       | Some v \<Rightarrow> set_item now e k (Some v) t)"

text \<open>A datum as the store hands it to the visitor of \<^verbatim>\<open>forEach\<close>:
  \<^verbatim>\<open>{key, value, ttl}\<close>, the \<^verbatim>\<open>ttl\<close> an absolute time in milliseconds or \<^verbatim>\<open>undefined\<close>.\<close>

record 'v datum =
  datum_key :: string
  datum_value :: "'v option"
  datum_ttl :: "int option"

text \<open>
  Modelled from the spec: \<^verbatim>\<open>tsToTtl\<close>, a method of the base class \<^verbatim>\<open>Engine\<close> of the
  package npc-engine, which is not among the sources. The spec: "each retained datum's
  TTL is computed as storedExpiresAt - now".
\<close>

definition tsToTtl :: "int \<Rightarrow> int option \<Rightarrow> int option" where
  "tsToTtl now ts = (case ts of None \<Rightarrow> None | Some x \<Rightarrow> Some (x - now))"

text \<open>The test of line 250, \<^verbatim>\<open>!datum.ttl || Date.now() < datum.ttl\<close>, and the visitor of
  lines 246-253, which returns what it pushes on \<^verbatim>\<open>result\<close>: a triple for
  \<^verbatim>\<open>{key, val, ttl}\<close>, or nothing.\<close>

definition retained :: "int \<Rightarrow> 'v datum \<Rightarrow> bool" where
  "retained now d = (if truthy (datum_ttl d) then (case datum_ttl d of None \<Rightarrow> True | Some x \<Rightarrow> now < x) else True)"

definition visitor :: "int \<Rightarrow> 'v datum \<Rightarrow> (string \<times> 'v option \<times> int option) list" where
  "visitor now d =
     (if retained now d then [(datum_key d, datum_value d, tsToTtl now (datum_ttl d))] else [])"

text \<open>
  \<^verbatim>\<open>load()\<close>, lines 235-258. \<open>visits\<close> is what \<^verbatim>\<open>forEach\<close> enumerates: every stored
  datum, in the order of the store, each with the value of \<^verbatim>\<open>Date.now()\<close> when it is
  visited. \<^verbatim>\<open>init\<close> and \<^verbatim>\<open>forEach\<close> are called on the store directly, not through the
  limiter.
\<close>

definition load ::
  "'v engine \<Rightarrow> (int \<times> 'v datum) list \<Rightarrow> (string \<times> 'v option \<times> int option) list promise \<times> 'v engine" where
  "load e visits =
     await (ready e, e) (\<lambda>u e.
       await (call_store e Init) (\<lambda>r e.
         await (call_store e ForEach) (\<lambda>r e.
           (Fulfilled (concat (map (\<lambda>p. visitor (fst p) (snd p)) visits)), e))))"

text \<open>\<^verbatim>\<open>flush()\<close>, lines 266-276.\<close>

definition flush :: "'v engine \<Rightarrow> bool promise \<times> 'v engine" where
  "flush e =
     await (ready e, e) (\<lambda>u e. await (schedule e Clear) (\<lambda>r e. (Fulfilled True, e)))"

text \<open>\<^verbatim>\<open>close()\<close>, lines 284-299, on the engine and the state of the directory lock. When
  \<^verbatim>\<open>#unlockDirectory\<close> throws at line 294, the promise of \<^verbatim>\<open>close\<close> is rejected with what
  it threw.\<close>

definition close :: "'v engine \<Rightarrow> lstate \<Rightarrow> bool promise \<times> 'v engine \<times> lstate" where
  "close e s =
     await (ready e, (e, s)) (\<lambda>u es.
       await (fst (stop (fst es)), (snd (stop (fst es)), snd es)) (\<lambda>u es.
         (case fst (unlockDirectory (directory (fst es)) (snd es)) of
            Inl err \<Rightarrow> Rejected err
          | Inr b \<Rightarrow> Fulfilled True,
          (fst es, snd (unlockDirectory (directory (fst es)) (snd es))))))"

subsection \<open>Overlapping calls: the methods as jobs\<close>

text \<open>
  The definitions above take one method call at a time: the call runs to its end before
  the next one starts, so the limiter is idle when \<open>schedule\<close> hands it a call, and
  \<open>stop\<close> finds no job to wait for. The methods are \<^verbatim>\<open>async\<close>, though, and a caller
  need not wait: calls made one after the other overlap. What follows is \<^verbatim>\<open>get\<close>,
  \<^verbatim>\<open>set\<close> and \<^verbatim>\<open>del\<close> on a ready engine whose limiter runs, cut at their
  \<^verbatim>\<open>await\<close>s, on the job queue of the event loop.

  A method called runs synchronously up to \<^verbatim>\<open>await this.#ready\<close> (lines 141, 158, 190);
  \<^verbatim>\<open>#ready\<close> is fulfilled, so the rest of the method is queued as a job (\<open>suspend\<close>).
  When that job runs (\<open>resume\<close>), the method goes on to its call of
  \<^verbatim>\<open>this.#limiter.schedule\<close> (lines 145, 175, 194); for \<^verbatim>\<open>set\<close> without a \<^verbatim>\<open>ttl\<close>
  on a key whose expiration has passed it calls \<^verbatim>\<open>this.del(key)\<close> instead (line 167),
  and \<^verbatim>\<open>del\<close> is a method like the others, which suspends at its own
  \<^verbatim>\<open>await this.#ready\<close>. What a method does after the limiter has answered reaches
  neither the limiter nor the store and is left out.

  The limiter is Bottleneck with \<^verbatim>\<open>maxConcurrent: 1\<close> (lines 114-116): it keeps the
  calls handed to \<open>schedule\<close> in a queue, in the order of the \<open>schedule\<close> calls
  (\<open>waiting\<close>), and starts the first of them when fewer than \<open>maxConcurrent\<close> are
  running (\<open>executing\<close>). \<open>applied\<close> lists the calls the store has received, in the
  order it received them; \<open>scheduled\<close> lists the calls handed to the limiter.
\<close>

datatype 'v method_call =
    CallGet string
  | CallSet string "'v option" "int option"
  | CallDel string

datatype 'v continuation =
    GetAfterReady string
  | SetAfterReady string "'v option" "int option"
  | DelAfterReady string

record 'v qstate =
  continuations :: "'v continuation list"
  waiting :: "'v store_call list"
  executing :: "'v store_call list"
  applied :: "'v store_call list"
  scheduled :: "'v store_call list"

definition idle :: "'v qstate" where
  "idle = \<lparr>continuations = [], waiting = [], executing = [], applied = [], scheduled = []\<rparr>"

definition maxConcurrent :: nat where
  "maxConcurrent = 1"

definition suspend :: "'v continuation \<Rightarrow> 'v qstate \<Rightarrow> 'v qstate" where
  "suspend c s = s\<lparr>continuations := continuations s @ [c]\<rparr>"

definition limiter_schedule :: "'v store_call \<Rightarrow> 'v qstate \<Rightarrow> 'v qstate" where
  "limiter_schedule c s = s\<lparr>waiting := waiting s @ [c], scheduled := scheduled s @ [c]\<rparr>"

fun invoke :: "'v method_call \<Rightarrow> 'v qstate \<Rightarrow> 'v qstate" where
  "invoke (CallGet k) s = suspend (GetAfterReady k) s"
| "invoke (CallSet k v t) s = suspend (SetAfterReady k v t) s"
| "invoke (CallDel k) s = suspend (DelAfterReady k) s"

fun resume :: "(string \<Rightarrow> int option) \<Rightarrow> int \<Rightarrow> 'v continuation \<Rightarrow> 'v qstate \<Rightarrow> 'v qstate" where
  "resume ct now (GetAfterReady k) s = limiter_schedule (GetItem k) s"
| "resume ct now (DelAfterReady k) s = limiter_schedule (RemoveItem k) s"
| "resume ct now (SetAfterReady k v t) s =
     (case t of
        Some n \<Rightarrow> limiter_schedule (UpdateItem k v (Some n)) s
      | None \<Rightarrow>
          (case ct k of
             None \<Rightarrow> limiter_schedule (UpdateItem k v None) s
           | Some x \<Rightarrow>
               if truthy (Some x)
               then (if x - now < 0
                     then invoke (CallDel k) s
                     else limiter_schedule (UpdateItem k v (Some (x - now))) s)
               else limiter_schedule (UpdateItem k v (Some x)) s))"

text \<open>
  What can happen next: the caller calls a method (\<open>Invoke\<close>); the first queued job
  runs, and reads \<^verbatim>\<open>Date.now()\<close> as given (\<open>Resume\<close>); the limiter hands the first
  waiting call to the store (\<open>Begin\<close>); the store answers the call it is running
  (\<open>Finish\<close>).
\<close>

datatype 'v qevent = Invoke "'v method_call" | Resume int | Begin | Finish

fun qstep :: "(string \<Rightarrow> int option) \<Rightarrow> 'v qevent \<Rightarrow> 'v qstate \<Rightarrow> 'v qstate option" where
  "qstep ct (Invoke m) s = Some (invoke m s)"
| "qstep ct (Resume now) s =
     (case continuations s of
        [] \<Rightarrow> None
      | c # cs \<Rightarrow> Some (resume ct now c (s\<lparr>continuations := cs\<rparr>)))"
| "qstep ct Begin s =
     (case waiting s of
        [] \<Rightarrow> None
      | c # cs \<Rightarrow>
          if length (executing s) < maxConcurrent
          then Some (s\<lparr>waiting := cs, executing := executing s @ [c], applied := applied s @ [c]\<rparr>)
          else None)"
| "qstep ct Finish s =
     (case executing s of
        [] \<Rightarrow> None
      | c # cs \<Rightarrow> Some (s\<lparr>executing := cs\<rparr>))"

fun qrun :: "(string \<Rightarrow> int option) \<Rightarrow> 'v qevent list \<Rightarrow> 'v qstate \<Rightarrow> 'v qstate option" where
  "qrun ct [] s = Some s"
| "qrun ct (e # es) s = (case qstep ct e s of None \<Rightarrow> None | Some s' \<Rightarrow> qrun ct es s')"

subsection \<open>Concrete inputs\<close>

definition cache_ttl0 :: "string \<Rightarrow> int option" where
  "cache_ttl0 k =
     (if k = ''past'' then Some 500 else if k = ''future'' then Some 2000
      else if k = ''forever'' then Some 0 else None)"

definition cache_val0 :: "string \<Rightarrow> nat option" where
  "cache_val0 k = (if k = ''missing'' then None else Some 7)"

definition store0 :: "nat store_call \<Rightarrow> nat option promise" where
  "store0 c = (case c of GetItem k \<Rightarrow> Fulfilled (Some 7) | _ \<Rightarrow> Fulfilled None)"

definition engine0 :: "nat engine" where
  "engine0 = constructor ''.npc/storage'' cache_ttl0 cache_val0 store0 (Fulfilled True)"

definition datum0 :: "nat datum" where
  "datum0 = \<lparr>datum_key = ''a'', datum_value = Some 1, datum_ttl = Some 0\<rparr>"

definition datum1 :: "nat datum" where
  "datum1 = \<lparr>datum_key = ''b'', datum_value = Some 2, datum_ttl = Some 500\<rparr>"

definition datum2 :: "nat datum" where
  "datum2 = \<lparr>datum_key = ''c'', datum_value = Some 3, datum_ttl = Some 2000\<rparr>"

definition datum3 :: "nat datum" where
  "datum3 = \<lparr>datum_key = ''d'', datum_value = Some 4, datum_ttl = None\<rparr>"

text \<open>The engine whose lock was refused, a ready engine on the directory
  \<^verbatim>\<open>constructor\<close>, and the state of the lock once the constructor of \<open>engine0\<close> has
  called \<^verbatim>\<open>#lockDirectory\<close> and the callback has run.\<close>

definition engine_failed :: "nat engine" where
  "engine_failed =
     constructor ''.npc/storage'' cache_ttl0 cache_val0 store0
       (Rejected (AlreadyLocked ''.npc/storage''))"

definition engine1 :: "nat engine" where
  "engine1 = constructor ''constructor'' cache_ttl0 cache_val0 store0 (Fulfilled True)"

definition held0 :: lstate where
  "held0 =
     run_job (OnFulfilled 0) ((snd (lockDirectory ''.npc/storage'' init))\<lparr>microtasks := []\<rparr>)"

definition contended0 :: lstate where
  "contended0 =
     run_job (ResolveThenable 1 0) ((snd (lockDirectory ''.npc/storage'' held0))\<lparr>microtasks := []\<rparr>)"

subsection \<open>Predicates on the state of the lock\<close>

text \<open>
  What holds in every state the process can reach: a record that is an own property of
  the registry has a lock promise that was created and is not fulfilled; no lock promise
  is registered under two directories; \<^verbatim>\<open>__proto__\<close> is never an own property, and a
  record that became the prototype is not an own property as well; every call of \<^verbatim>\<open>#lockDirectory\<close> made so far has used up its
  \<^verbatim>\<open>resolve\<close>/\<^verbatim>\<open>reject\<close> pair; a timer belongs to a call made so far; and no promise
  of a call is rejected, nor is a rejection queued.
\<close>

definition lock_invariant :: "lstate \<Rightarrow> bool" where
  "lock_invariant s =
     ((\<forall>d l. cacheDirectories s d = Some l \<longrightarrow> l < next_lock s \<and> \<not> fulfilled (locks s l))
      \<and> (\<forall>d d' l. cacheDirectories s d = Some l \<and> cacheDirectories s d' = Some l \<longrightarrow> d = d')
      \<and> cacheDirectories s ''__proto__'' = None
      \<and> (\<forall>l. prototype s = Some l \<longrightarrow> l < next_lock s \<and> (\<forall>d. cacheDirectories s d \<noteq> Some l))
      \<and> (\<forall>a. a < next_attempt s \<longrightarrow> alreadyResolved (attempts s a))
      \<and> (\<forall>a due. timer s a = Some due \<longrightarrow> a < next_attempt s)
      \<and> (\<forall>a err. OnRejected a err \<notin> set (microtasks s))
      \<and> (\<forall>a err. outer (attempts s a) \<noteq> Rejected err)
      \<and> (\<forall>a err. acquired (attempts s a) \<noteq> Rejected err))"

text \<open>
  Call \<open>a\<close> of \<^verbatim>\<open>#lockDirectory\<close> contends with the holder of record \<open>l\<close>: the record
  of its directory is \<open>l\<close>, the call took the branch of lines 32-43 (its outer promise was
  resolved with the lock promise of \<open>l\<close> and is pending, \<^verbatim>\<open>.then\<close> is attached, nothing
  is acquired yet), and it follows \<open>l\<close>: either its reaction is registered on \<open>l\<close>, or
  the job that will register it is still queued.
\<close>

definition contending :: "nat \<Rightarrow> nat \<Rightarrow> lstate \<Rightarrow> bool" where
  "contending a l s =
     (a < next_attempt s \<and> cacheDirectories s (adir (attempts s a)) = Some l
      \<and> alreadyResolved (attempts s a) \<and> attached (attempts s a)
      \<and> outer (attempts s a) = Pending \<and> acquired (attempts s a) = Pending
      \<and> (a \<in> set (reactions (locks s l)) \<or> ResolveThenable a l \<in> set (microtasks s)))"

text \<open>
  After the release of \<open>l\<close> and until its callback has run, call \<open>a\<close> has a job in the
  queue (\<open>handing_over\<close>); when the callback has run, the call has acquired the
  directory \<open>d\<close> and its own record, created at or after lock number \<open>n\<close>, is the one in
  the registry (\<open>registered\<close>).
\<close>

definition handing_over :: "nat \<Rightarrow> nat \<Rightarrow> nat \<Rightarrow> string \<Rightarrow> lstate \<Rightarrow> bool" where
  "handing_over a l n d s =
     (a < next_attempt s \<and> adir (attempts s a) = d \<and> d \<noteq> ''__proto__''
      \<and> alreadyResolved (attempts s a)
      \<and> attached (attempts s a) \<and> l < next_lock s \<and> n \<le> next_lock s
      \<and> ((outer (attempts s a) = Pending
           \<and> (ThenableSettled a \<in> set (microtasks s)
               \<or> (ResolveThenable a l \<in> set (microtasks s) \<and> fulfilled (locks s l))))
          \<or> (outer (attempts s a) = Fulfilled () \<and> OnFulfilled a \<in> set (microtasks s))))"

definition registered :: "nat \<Rightarrow> nat \<Rightarrow> string \<Rightarrow> lstate \<Rightarrow> bool" where
  "registered a n d s =
     (a < next_attempt s \<and> acquired (attempts s a) = Fulfilled True
      \<and> (\<exists>l'. n \<le> l' \<and> own (attempts s a) = Some l' \<and> cacheDirectories s d = Some l'
               \<and> \<not> fulfilled (locks s l')))"

text \<open>
  For overlapping calls: the limiter never runs more than \<open>maxConcurrent\<close> calls, and
  the store receives the calls in the order in which they were handed to \<open>schedule\<close>
  (\<open>limiter_invariant\<close>). \<open>overtaking k v n\<close> holds of the states that follow when
  \<^verbatim>\<open>set(k, v, n)\<close> was called after a \<^verbatim>\<open>set\<close> on \<open>k\<close> that has turned into
  \<^verbatim>\<open>del(k)\<close>: the job of \<^verbatim>\<open>del\<close> is queued behind the job of the later \<^verbatim>\<open>set\<close>.
\<close>

definition limiter_invariant :: "'v qstate \<Rightarrow> bool" where
  "limiter_invariant s =
     (length (executing s) \<le> maxConcurrent \<and> applied s @ waiting s = scheduled s)"

definition overtaking :: "string \<Rightarrow> 'v option \<Rightarrow> int \<Rightarrow> 'v qstate \<Rightarrow> bool" where
  "overtaking k v n s =
     ((continuations s = [SetAfterReady k v (Some n), DelAfterReady k] \<and> scheduled s = [])
      \<or> (continuations s = [DelAfterReady k] \<and> scheduled s = [UpdateItem k v (Some n)])
      \<or> (continuations s = [] \<and> scheduled s = [UpdateItem k v (Some n), RemoveItem k]))"

section \<open>Properties of the engine\<close>

lemmas engine_defs =
  await_def schedule_def call_store_def upsert_def get_def del_def set_item_def ttl_def
  load_def flush_def close_def stop_def

lemmas input_defs =
  engine0_def engine_failed_def constructor_def ready_of_def cache_ttl0_def cache_val0_def
  store0_def datum0_def datum1_def datum2_def datum3_def

lemma constructor_ready:
  "ready (constructor d ct cv st lock_result) = ready_of lock_result"
  by (simp add: constructor_def)

lemma pending_engine_suspends:
  assumes "ready e = Pending"
  shows "get e k = (Pending, e)" and "set_item now e k v t = (Pending, e)"
    and "del e k = (Pending, e)" and "ttl now e k t = (Pending, e)"
    and "load e visits = (Pending, e)" and "flush e = (Pending, e)"
    and "close e s = (Pending, e, s)"
  using assms by (simp_all add: engine_defs)

text \<open>
  C5. If the lock promise of the constructor is rejected, \<^verbatim>\<open>#ready\<close> is rejected with
  the same error, and then each of \<^verbatim>\<open>get\<close>, \<^verbatim>\<open>set\<close>, \<^verbatim>\<open>del\<close>, \<^verbatim>\<open>ttl\<close>, \<^verbatim>\<open>load\<close>,
  \<^verbatim>\<open>flush\<close> and \<^verbatim>\<open>close\<close> is rejected with that error, without a call of the store and
  without a change of the engine or of the lock registry. A method called before the
  rejection is suspended at \<^verbatim>\<open>await this.#ready\<close> (\<open>pending_engine_suspends\<close>) and goes
  on from there, so it ends in the same way.
\<close>

theorem failed_lock_rejects_every_operation:
  assumes "ready e = Rejected err"
  shows "get e k = (Rejected err, e)
       \<and> set_item now e k v t = (Rejected err, e)
       \<and> del e k = (Rejected err, e)
       \<and> ttl now e k t = (Rejected err, e)
       \<and> load e visits = (Rejected err, e)
       \<and> flush e = (Rejected err, e)
       \<and> close e s = (Rejected err, e, s)"
  using assms by (simp add: engine_defs)

theorem failed_lock_rejects_every_operation_witness:
  "ready engine_failed = Rejected (AlreadyLocked ''.npc/storage'')
   \<and> get engine_failed ''a'' = (Rejected (AlreadyLocked ''.npc/storage''), engine_failed)
   \<and> set_item 1000 engine_failed ''a'' (Some 7) None
        = (Rejected (AlreadyLocked ''.npc/storage''), engine_failed)
   \<and> del engine_failed ''a'' = (Rejected (AlreadyLocked ''.npc/storage''), engine_failed)
   \<and> ttl 1000 engine_failed ''a'' (Some 5)
        = (Rejected (AlreadyLocked ''.npc/storage''), engine_failed)
   \<and> load engine_failed [(1000, datum2)]
        = (Rejected (AlreadyLocked ''.npc/storage''), engine_failed)
   \<and> flush engine_failed = (Rejected (AlreadyLocked ''.npc/storage''), engine_failed)
   \<and> close engine_failed init
        = (Rejected (AlreadyLocked ''.npc/storage''), engine_failed, init)"
proof -
  have r: "ready engine_failed = Rejected (AlreadyLocked ''.npc/storage'')"
    by (simp add: engine_failed_def constructor_ready ready_of_def)
  show ?thesis
    using r failed_lock_rejects_every_operation
            [OF r, of "''a''" 1000 "Some 7" None "[(1000, datum2)]" init]
          failed_lock_rejects_every_operation [OF r, of "''a''" 1000 "Some 7" "Some 5" "[]" init]
    by simp
qed

text \<open>
  C7. \<^verbatim>\<open>ttl(key, newTtl)\<close> on a ready engine: when the owning cache has no value for the
  key, nothing is returned and neither the engine nor the list of calls the store has
  received changes; otherwise the call is exactly \<^verbatim>\<open>set(key, currentValue, newTtl)\<close>.
\<close>

theorem ttl_absent_noop_else_full_set:
  assumes "ready e = Fulfilled ()"
  shows "(cache_get e k = None \<longrightarrow> ttl now e k t = (Fulfilled None, e))
       \<and> (\<forall>v. cache_get e k = Some v \<longrightarrow> ttl now e k t = set_item now e k (Some v) t)"
  using assms by (simp add: ttl_def await_def)

theorem ttl_absent_noop_else_full_set_witness:
  "ttl 1000 engine0 ''missing'' (Some 5) = (Fulfilled None, engine0)
   \<and> ttl 1000 engine0 ''a'' (Some 5) = set_item 1000 engine0 ''a'' (Some 7) (Some 5)
   \<and> received (snd (ttl 1000 engine0 ''a'' (Some 5))) = [UpdateItem ''a'' (Some 7) (Some 5)]"
proof -
  have r: "ready engine0 = Fulfilled ()"
    by (simp add: input_defs)
  have a: "cache_get engine0 ''missing'' = None" and b: "cache_get engine0 ''a'' = Some 7"
    by (simp_all add: input_defs)
  have c: "received (snd (set_item 1000 engine0 ''a'' (Some 7) (Some 5)))
             = [UpdateItem ''a'' (Some 7) (Some 5)]"
    by (simp add: engine_defs input_defs)
  show ?thesis
    using ttl_absent_noop_else_full_set [OF r, of "''missing''" 1000 "Some 5"]
          ttl_absent_noop_else_full_set [OF r, of "''a''" 1000 "Some 5"] a b c
    by simp
qed

text \<open>
  C10. \<^verbatim>\<open>set(key, value)\<close> with no \<^verbatim>\<open>ttl\<close> on a ready engine whose limiter runs, when
  the owning cache reports an expiration that is truthy and earlier than the current
  time: the only call the store receives is \<^verbatim>\<open>removeItem(key)\<close>, no upsert, and the
  method returns \<^verbatim>\<open>undefined\<close> when the removal resolves (it is rejected, or stays
  pending, as the removal is).
\<close>

theorem set_with_past_expiration_deletes:
  assumes "ready e = Fulfilled ()" and "\<not> stopped e"
      and "getTtl e k = Some x" and "x \<noteq> 0" and "x < now"
  shows "set_item now e k v None =
           ((case store e (RemoveItem k) of
               Pending \<Rightarrow> Pending
             | Fulfilled r \<Rightarrow> Fulfilled None
             | Rejected err \<Rightarrow> Rejected err),
            e\<lparr>received := received e @ [RemoveItem k]\<rparr>)"
  using assms by (simp add: engine_defs truthy_def split: promise.splits)

theorem set_with_past_expiration_deletes_witness:
  "getTtl engine0 ''past'' = Some 500 \<and> (500::int) < 1000
   \<and> set_item 1000 engine0 ''past'' (Some 7) None
        = (Fulfilled None, engine0\<lparr>received := [RemoveItem ''past'']\<rparr>)"
proof -
  have r: "ready engine0 = Fulfilled ()" and n: "\<not> stopped engine0"
    and g: "getTtl engine0 ''past'' = Some 500"
    by (simp_all add: input_defs)
  have x: "(500::int) \<noteq> 0" and y: "(500::int) < 1000"
    by simp_all
  show ?thesis
    using set_with_past_expiration_deletes [OF r n g x y, of "Some 7"] g
    by (simp add: input_defs)
qed

text \<open>
  C4, as the code has it. The claim as stated fails where the expiration the cache
  reports has passed: there \<^verbatim>\<open>set\<close> issues no upsert and returns \<^verbatim>\<open>undefined\<close>.
\<close>

theorem set_without_ttl_past_expiration_counterexample:
  "getTtl engine0 ''past'' = Some 500
   \<and> set_item 1000 engine0 ''past'' (Some 7) None
        = (Fulfilled None, engine0\<lparr>received := [RemoveItem ''past'']\<rparr>)"
  by (simp add: engine_defs truthy_def input_defs)

text \<open>
  C4, amended. \<^verbatim>\<open>set(key, value)\<close> with no \<^verbatim>\<open>ttl\<close> on a ready engine whose limiter runs
  reads the absolute expiration of the key from the owning cache. When that is
  \<^verbatim>\<open>undefined\<close> or \<open>0\<close>, the store receives one upsert with that value as \<^verbatim>\<open>ttl\<close>; when it
  is not earlier than the current time, the store receives one upsert whose \<^verbatim>\<open>ttl\<close> is
  the expiration minus the current time. In both cases the method returns the value when
  the upsert resolves.
\<close>

theorem set_without_ttl_uses_cache_expiration:
  assumes "ready e = Fulfilled ()" and "\<not> stopped e"
  shows "(\<not> truthy (getTtl e k) \<longrightarrow>
            set_item now e k v None =
              ((case store e (UpdateItem k v (getTtl e k)) of
                  Pending \<Rightarrow> Pending
                | Fulfilled r \<Rightarrow> Fulfilled v
                | Rejected err \<Rightarrow> Rejected err),
               e\<lparr>received := received e @ [UpdateItem k v (getTtl e k)]\<rparr>))
       \<and> (\<forall>x. getTtl e k = Some x \<and> x \<noteq> 0 \<and> now \<le> x \<longrightarrow>
            set_item now e k v None =
              ((case store e (UpdateItem k v (Some (x - now))) of
                  Pending \<Rightarrow> Pending
                | Fulfilled r \<Rightarrow> Fulfilled v
                | Rejected err \<Rightarrow> Rejected err),
               e\<lparr>received := received e @ [UpdateItem k v (Some (x - now))]\<rparr>))"
  using assms
  by (auto simp add: engine_defs truthy_def split: promise.splits option.splits)

theorem set_without_ttl_uses_cache_expiration_witness:
  "set_item 1000 engine0 ''forever'' (Some 7) None
     = (Fulfilled (Some 7), engine0\<lparr>received := [UpdateItem ''forever'' (Some 7) (Some 0)]\<rparr>)
   \<and> set_item 1000 engine0 ''nottl'' (Some 7) None
     = (Fulfilled (Some 7), engine0\<lparr>received := [UpdateItem ''nottl'' (Some 7) None]\<rparr>)
   \<and> set_item 1000 engine0 ''future'' (Some 7) None
     = (Fulfilled (Some 7), engine0\<lparr>received := [UpdateItem ''future'' (Some 7) (Some 1000)]\<rparr>)"
proof -
  have r: "ready engine0 = Fulfilled ()" and n: "\<not> stopped engine0"
    by (simp_all add: input_defs)
  have g: "getTtl engine0 ''forever'' = Some 0" "getTtl engine0 ''nottl'' = None"
    "getTtl engine0 ''future'' = Some 2000"
    by (simp_all add: input_defs)
  show ?thesis
    using set_without_ttl_uses_cache_expiration [OF r n, of "''forever''" 1000 "Some 7"]
          set_without_ttl_uses_cache_expiration [OF r n, of "''nottl''" 1000 "Some 7"]
          set_without_ttl_uses_cache_expiration [OF r n, of "''future''" 1000 "Some 7"] g
    by (simp add: truthy_def input_defs)
qed

text \<open>
  C3, as the code has it. The claim as stated fails for a stored expiration of \<open>0\<close>:
  line 250 tests \<^verbatim>\<open>!datum.ttl\<close> first, and \<open>0\<close> is falsy, so the datum is retained
  although its expiration is before the current time.
\<close>

theorem load_retains_zero_expiration_counterexample:
  "datum_ttl datum0 = Some 0 \<and> (0::int) \<le> 1000 \<and> retained 1000 datum0
   \<and> fst (load engine0 [(1000, datum0)]) = Fulfilled [(''a'', Some 1, Some (- 1000))]"
  by (simp add: engine_defs visitor_def retained_def truthy_def tsToTtl_def input_defs)

text \<open>
  C3, amended. On a ready engine whose store answers \<^verbatim>\<open>init\<close> and \<^verbatim>\<open>forEach\<close>,
  \<^verbatim>\<open>load()\<close> returns what the visitor keeps of each visited datum, in the order of the
  visits. A datum is left out exactly when it has a stored expiration that is not \<open>0\<close> and
  is at or before the current time; a datum that is kept is returned with its key, its
  value and, as \<^verbatim>\<open>ttl\<close>, its stored expiration minus the current time (no further unit
  conversion in \<^verbatim>\<open>src/index.js\<close>), or \<^verbatim>\<open>undefined\<close> when it has no expiration.
\<close>

theorem load_excludes_expired_and_returns_remaining_ttl:
  assumes "ready e = Fulfilled ()"
      and "store e Init = Fulfilled r1" and "store e ForEach = Fulfilled r2"
  shows "fst (load e visits) = Fulfilled (concat (map (\<lambda>p. visitor (fst p) (snd p)) visits))
       \<and> (visitor now d = [] \<longleftrightarrow> (\<exists>x. datum_ttl d = Some x \<and> x \<noteq> 0 \<and> x \<le> now))
       \<and> (visitor now d \<noteq> [] \<longrightarrow>
            visitor now d =
              [(datum_key d, datum_value d, map_option (\<lambda>x. x - now) (datum_ttl d))])"
  using assms
  by (auto simp add: engine_defs visitor_def retained_def truthy_def tsToTtl_def
           split: option.splits)

theorem load_excludes_expired_and_returns_remaining_ttl_witness:
  "fst (load engine0 [(1000, datum1), (1000, datum2), (1000, datum3)])
     = Fulfilled [(''c'', Some 3, Some 1000), (''d'', Some 4, None)]
   \<and> visitor 1000 datum1 = []
   \<and> visitor 1000 datum2 = [(''c'', Some 3, Some 1000)]"
proof -
  have r: "ready engine0 = Fulfilled ()"
    and i: "store engine0 Init = Fulfilled None" and f: "store engine0 ForEach = Fulfilled None"
    by (simp_all add: input_defs)
  have v1: "visitor 1000 datum1 = []"
    using load_excludes_expired_and_returns_remaining_ttl [OF r i f, of "[]" 1000 datum1]
    by (simp add: datum1_def)
  have v2: "visitor 1000 datum2 = [(''c'', Some 3, Some 1000)]"
    using load_excludes_expired_and_returns_remaining_ttl [OF r i f, of "[]" 1000 datum2]
    by (simp add: datum2_def)
  have v3: "visitor 1000 datum3 = [(''d'', Some 4, None)]"
    using load_excludes_expired_and_returns_remaining_ttl [OF r i f, of "[]" 1000 datum3]
    by (simp add: datum3_def)
  show ?thesis
    using load_excludes_expired_and_returns_remaining_ttl
            [OF r i f, of "[(1000, datum1), (1000, datum2), (1000, datum3)]" 1000 datum1]
          v1 v2 v3
    by simp
qed

text \<open>\<^verbatim>\<open>close()\<close> never calls the store: whatever its outcome, the list of the calls the
  store has received is the same after it.\<close>

lemma close_calls_no_store:
  "received (fst (snd (close e s))) = received e"
  by (simp add: engine_defs split: promise.splits)

lemma close_releases_directory:
  assumes "ready e = Fulfilled ()" and "\<not> stopped e"
      and "fst (unlockDirectory (directory e) s) = Inr True"
  shows "close e s = (Fulfilled True, e\<lparr>stopped := True\<rparr>, snd (unlockDirectory (directory e) s))"
  using assms by (simp add: engine_defs)

lemma close_after_stop_is_rejected:
  assumes "ready e = Fulfilled ()" and "stopped e"
  shows "close e s = (Rejected StopAlreadyCalled, e, s)"
  using assms by (simp add: engine_defs)

text \<open>
  C6, evaluated. \<open>engine0\<close> is ready and holds its directory (\<open>held0\<close>). The first
  \<^verbatim>\<open>close()\<close> returns \<^verbatim>\<open>true\<close>, stops the limiter and removes the record of the
  directory. The second \<^verbatim>\<open>close()\<close> awaits \<^verbatim>\<open>this.#limiter.stop(...)\<close> again (line 289),
  which Bottleneck rejects, so the second \<^verbatim>\<open>close()\<close> is rejected before it reaches
  \<^verbatim>\<open>#unlockDirectory\<close>. Neither call makes the store receive anything.
\<close>

theorem second_close_is_rejected:
  "cacheDirectories held0 ''.npc/storage'' = Some 0
   \<and> fst (close engine0 held0) = Fulfilled True
   \<and> cacheDirectories (snd (snd (close engine0 held0))) ''.npc/storage'' = None
   \<and> fst (close (fst (snd (close engine0 held0))) (snd (snd (close engine0 held0))))
        = Rejected StopAlreadyCalled
   \<and> received (fst (snd (close (fst (snd (close engine0 held0)))
                                 (snd (snd (close engine0 held0)))))) = []"
  by (simp add: engine_defs input_defs held0_def init_def fresh_attempt_def enqueue_def
        fulfil_outer_def mark_resolved_def resolve_fn_def then_attach_def lockDirectory_def
        resolve_lock_def unlockDirectory_def lookup_def store_record_def
        object_prototype_names_def Let_def)

section \<open>Properties of the directory lock\<close>

lemmas promise_defs = enqueue_def fulfil_outer_def reject_outer_def mark_resolved_def
  resolve_fn_def reject_fn_def then_attach_def setTimeout_def fresh_attempt_def

lemma lookup_own: "cacheDirectories s d = Some l \<Longrightarrow> lookup s d = Record l"
  by (simp add: lookup_def)

lemma lookup_Record:
  "lookup s d = Record l \<Longrightarrow>
   cacheDirectories s d = Some l
   \<or> (cacheDirectories s d = None \<and> d = ''__proto__'' \<and> prototype s = Some l)"
  by (auto simp: lookup_def split: option.splits if_splits)

lemma lookup_frame:
  assumes "cacheDirectories s' = cacheDirectories s" and "prototype s' = prototype s"
  shows "lookup s' d = lookup s d"
  unfolding lookup_def assms by (rule refl)

lemma inv_init: "lock_invariant init"
  by (simp add: lock_invariant_def init_def fresh_attempt_def)

lemma inv_lock: "lock_invariant s \<Longrightarrow> lock_invariant (snd (lockDirectory d s))"
  unfolding lock_invariant_def lockDirectory_def Let_def
  by (cases "lookup (s\<lparr>attempts := (attempts s)(next_attempt s := fresh_attempt d), next_attempt := Suc (next_attempt s)\<rparr>) d")
     (auto simp add: promise_defs)


lemma inv_unlock: "lock_invariant s \<Longrightarrow> lock_invariant (snd (unlockDirectory d s))"
proof (cases "lookup s d")
  case Absent
  then show "lock_invariant s \<Longrightarrow> lock_invariant (snd (unlockDirectory d s))"
    by (simp add: unlockDirectory_def)
next
  case Inherited
  then show "lock_invariant s \<Longrightarrow> lock_invariant (snd (unlockDirectory d s))"
    by (simp add: unlockDirectory_def)
next
  case (Record l)
  assume i: "lock_invariant s"
  from lookup_Record[OF Record] i show "lock_invariant (snd (unlockDirectory d s))"
    unfolding lock_invariant_def unlockDirectory_def resolve_lock_def Record
    by (auto simp add: promise_defs)
qed

lemma inv_job:
  "lock_invariant s \<Longrightarrow> microtasks s = j # js \<Longrightarrow>
   lock_invariant (run_job j (s\<lparr>microtasks := js\<rparr>))"
  unfolding lock_invariant_def
  by (cases j) (auto simp add: promise_defs store_record_def split: option.splits if_splits intro: less_SucI)

lemma inv_timeout: "lock_invariant s \<Longrightarrow> step (Timeout a) s = Some s' \<Longrightarrow> lock_invariant s'"
  by (auto simp: lock_invariant_def reject_fn_def split: option.splits if_splits)

lemma inv_step:
  assumes "lock_invariant s" and "step e s = Some s'"
  shows "lock_invariant s'"
proof (cases e)
  case (Lock d)
  with assms show ?thesis using inv_lock by auto
next
  case (Unlock d)
  with assms show ?thesis using inv_unlock by auto
next
  case Microtask
  with assms(2) obtain j js where m: "microtasks s = j # js"
    and s': "s' = run_job j (s\<lparr>microtasks := js\<rparr>)"
    by (auto split: list.splits)
  from inv_job [OF assms(1) m] s' show ?thesis by simp
next
  case (Sleep n)
  with assms show ?thesis by (auto simp: lock_invariant_def)
next
  case (Timeout a)
  with assms show ?thesis using inv_timeout by auto
qed

lemma inv_run: "lock_invariant s \<Longrightarrow> run es s = Some s' \<Longrightarrow> lock_invariant s'"
  by (induction es arbitrary: s) (auto split: option.splits dest: inv_step)

lemma inv_reachable: "reachable s \<Longrightarrow> lock_invariant s"
  unfolding reachable_def using inv_run[OF inv_init] by blast

lemma run_append: "run (es1 @ es2) s = (case run es1 s of None \<Rightarrow> None | Some s1 \<Rightarrow> run es2 s1)"
  by (induction es1 arbitrary: s) (auto split: option.splits)

lemma reachable_run: "reachable s \<Longrightarrow> run es s = Some s' \<Longrightarrow> reachable s'"
  unfolding reachable_def
proof -
  assume "\<exists>es0. run es0 init = Some s" and r: "run es s = Some s'"
  then obtain es0 where "run es0 init = Some s" by blast
  then have "run (es0 @ es) init = Some s'" using r by (simp add: run_append)
  then show "\<exists>es. run es init = Some s'" by blast
qed

lemma unlock_hands_over:
  assumes "lock_invariant s" and "contending a l s"
  shows "handing_over a l (next_lock s) (adir (attempts s a))
           (snd (unlockDirectory (adir (attempts s a)) s))"
proof -
  have r: "lookup s (adir (attempts s a)) = Record l"
    using assms(2) by (simp add: contending_def lookup_own)
  show ?thesis
    using assms
    unfolding lock_invariant_def contending_def handing_over_def unlockDirectory_def
      resolve_lock_def r
    by (auto simp add: promise_defs)
qed

lemma handing_over_lock:
  "handing_over a l n d s \<Longrightarrow> handing_over a l n d (snd (lockDirectory d' s))"
  unfolding handing_over_def lockDirectory_def Let_def
  by (cases "lookup (s\<lparr>attempts := (attempts s)(next_attempt s := fresh_attempt d'),
                         next_attempt := Suc (next_attempt s)\<rparr>) d'")
     (auto simp add: promise_defs)

lemma handing_over_unlock:
  "handing_over a l n d s \<Longrightarrow> handing_over a l n d (snd (unlockDirectory d' s))"
  unfolding handing_over_def unlockDirectory_def resolve_lock_def
  by (cases "lookup s d'") (auto simp add: promise_defs)

lemma handing_over_timeout:
  "handing_over a l n d s \<Longrightarrow> step (Timeout a') s = Some s' \<Longrightarrow> handing_over a l n d s'"
  unfolding handing_over_def
  by (auto simp add: promise_defs split: option.splits if_splits)

lemma handing_over_job:
  "handing_over a l n d s \<Longrightarrow> microtasks s = j # js \<Longrightarrow>
   handing_over a l n d (run_job j (s\<lparr>microtasks := js\<rparr>))
   \<or> registered a n d (run_job j (s\<lparr>microtasks := js\<rparr>))"
  unfolding handing_over_def registered_def
  by (cases j) (auto simp add: promise_defs store_record_def split: option.splits if_splits)

lemma handing_over_step:
  assumes "handing_over a l n d s" and "step e s = Some s'"
  shows "handing_over a l n d s' \<or> registered a n d s'"
proof (cases e)
  case (Lock d') with assms show ?thesis using handing_over_lock by auto
next
  case (Unlock d') with assms show ?thesis using handing_over_unlock by auto
next
  case Microtask
  with assms(2) obtain j js where m: "microtasks s = j # js"
    and s': "s' = run_job j (s\<lparr>microtasks := js\<rparr>)"
    by (auto split: list.splits)
  from handing_over_job[OF assms(1) m] s' show ?thesis by simp
next
  case (Sleep k) with assms show ?thesis by (auto simp: handing_over_def)
next
  case (Timeout a') with assms show ?thesis using handing_over_timeout by auto
qed

lemma hand_over_completes:
  assumes "handing_over a l n d s" and "run es s = Some s'" and "microtasks s' = []"
  shows "\<exists>es1 es2 s1. es = es1 @ es2 \<and> run es1 s = Some s1 \<and> run es2 s1 = Some s'
           \<and> registered a n d s1"
  using assms
proof (induction es arbitrary: s)
  case Nil
  then show ?case by (auto simp: handing_over_def)
next
  case (Cons e es)
  from Cons.prems(2) obtain s2 where st: "step e s = Some s2" and rn: "run es s2 = Some s'"
    by (auto split: option.splits)
  from handing_over_step[OF Cons.prems(1) st] show ?case
  proof
    assume "handing_over a l n d s2"
    from Cons.IH[OF this rn Cons.prems(3)] obtain es1 es2 s1 where
      "es = es1 @ es2" "run es1 s2 = Some s1" "run es2 s1 = Some s'" "registered a n d s1"
      by blast
    then have "e # es = (e # es1) @ es2 \<and> run (e # es1) s = Some s1 \<and> run es2 s1 = Some s'
                 \<and> registered a n d s1"
      using st by simp
    then show ?thesis by blast
  next
    assume "registered a n d s2"
    then have "e # es = [e] @ es \<and> run [e] s = Some s2 \<and> run es s2 = Some s' \<and> registered a n d s2"
      using st rn by simp
    then show ?thesis by blast
  qed
qed

lemma acquired_stable_step:
  assumes "lock_invariant s" and "a < next_attempt s"
      and "acquired (attempts s a) = Fulfilled True" and "step e s = Some s'"
  shows "a < next_attempt s' \<and> acquired (attempts s' a) = Fulfilled True"
proof (cases e)
  case (Lock d')
  with assms(4) have s': "s' = snd (lockDirectory d' s)" by simp
  show ?thesis
    using assms(2,3) unfolding s' lockDirectory_def Let_def
    by (cases "lookup (s\<lparr>attempts := (attempts s)(next_attempt s := fresh_attempt d'),
                           next_attempt := Suc (next_attempt s)\<rparr>) d'")
       (auto simp add: promise_defs)
next
  case (Unlock d')
  with assms(4) have s': "s' = snd (unlockDirectory d' s)" by simp
  show ?thesis
    using assms(2,3) unfolding s' unlockDirectory_def resolve_lock_def
    by (cases "lookup s d'") (auto simp add: promise_defs)
next
  case Microtask
  with assms obtain j js where m: "microtasks s = j # js"
    and s': "s' = run_job j (s\<lparr>microtasks := js\<rparr>)"
    by (auto split: list.splits)
  from assms(1) m have "\<And>a' err. j \<noteq> OnRejected a' err"
    by (auto simp: lock_invariant_def)
  with assms(2,3) s' show ?thesis
    by (cases j) (auto simp: promise_defs store_record_def)
next
  case (Sleep k)
  with assms show ?thesis by auto
next
  case (Timeout a')
  with assms show ?thesis
    by (auto simp: lock_invariant_def reject_fn_def split: option.splits if_splits)
qed

lemma acquired_stable_run:
  "lock_invariant s \<Longrightarrow> a < next_attempt s \<Longrightarrow> acquired (attempts s a) = Fulfilled True \<Longrightarrow>
   run es s = Some s' \<Longrightarrow> acquired (attempts s' a) = Fulfilled True"
proof (induction es arbitrary: s)
  case Nil then show ?case by simp
next
  case (Cons e es)
  from Cons.prems(4) obtain s2 where st: "step e s = Some s2" and rn: "run es s2 = Some s'"
    by (auto split: option.splits)
  from acquired_stable_step[OF Cons.prems(1,2,3) st] inv_step[OF Cons.prems(1) st] rn
  show ?case using Cons.IH by blast
qed

text \<open>A call of \<^verbatim>\<open>#lockDirectory\<close> that finds a record under its directory contends
  with it, and its timer is due 500 ms later.\<close>

lemma lockDirectory_contended:
  assumes "lock_invariant s" and "cacheDirectories s d = Some l"
  shows "contending (next_attempt s) l (snd (lockDirectory d s))
       \<and> timer (snd (lockDirectory d s)) (next_attempt s) = Some (clock s + 500)
       \<and> fst (lockDirectory d s) = next_attempt s"
proof -
  have "lookup (s\<lparr>attempts := (attempts s)(next_attempt s := fresh_attempt d),
                   next_attempt := Suc (next_attempt s)\<rparr>) d = Record l"
    using assms(2) by (simp add: lookup_own)
  then show ?thesis
    using assms unfolding lock_invariant_def contending_def lockDirectory_def Let_def
    by (auto simp add: promise_defs)
qed

text \<open>No call of \<^verbatim>\<open>#lockDirectory\<close> is ever rejected: the executor has called
  \<^verbatim>\<open>resolve\<close> (line 43 or 48) before any timer can fire, so the \<^verbatim>\<open>reject\<close> of line 40
  finds \<open>alreadyResolved\<close> set.\<close>

lemma lockDirectory_never_rejects: "reachable s \<Longrightarrow> acquired (attempts s a) \<noteq> Rejected err"
  using inv_reachable by (auto simp: lock_invariant_def)

text \<open>
  C1, evaluated. Engine 0 acquires \<^verbatim>\<open>.npc/storage\<close>; call 1 of \<^verbatim>\<open>#lockDirectory\<close>
  finds the record and contends (\<open>contended0\<close>). 500 ms pass without a release and the
  timer of call 1 fires: the record of the holder is still there, the timer is gone, and
  the promise of call 1 is still pending, not rejected. When the holder releases 100 ms
  later, call 1 acquires the directory.
\<close>

theorem timeout_does_not_reject_acquisition:
  "run [Lock ''.npc/storage'', Microtask, Lock ''.npc/storage'', Microtask] init = Some contended0
   \<and> contending 1 0 contended0 \<and> timer contended0 1 = Some 500
   \<and> (\<exists>s. run [Sleep 500, Timeout 1] contended0 = Some s
            \<and> clock s = 500 \<and> timer s 1 = None \<and> microtasks s = []
            \<and> cacheDirectories s ''.npc/storage'' = Some 0
            \<and> acquired (attempts s 1) = Pending)
   \<and> (\<exists>s. run [Sleep 500, Timeout 1, Sleep 100, Unlock ''.npc/storage'', Microtask, Microtask]
              contended0 = Some s
            \<and> clock s = 600 \<and> microtasks s = []
            \<and> acquired (attempts s 1) = Fulfilled True)"
  by (simp add: contended0_def held0_def contending_def init_def promise_defs lockDirectory_def
        resolve_lock_def unlockDirectory_def lookup_def store_record_def
        object_prototype_names_def Let_def)

text \<open>
  C2. Call \<open>a\<close> contends with the holder of record \<open>l\<close> in a reachable state, and its
  timer has not fired. The holder releases the directory, and the process goes on in any
  way (\<open>es\<close>: further calls, jobs, timers) until the job queue is empty. Then the promise
  of call \<open>a\<close> is fulfilled with \<^verbatim>\<open>true\<close>; and at some point on the way the callback of
  \<open>a\<close> has put a record of its own under the directory: a new lock promise, not \<open>l\<close>,
  not fulfilled, created after the release.
\<close>

theorem contender_acquires_after_release:
  assumes "reachable s" and "contending a l s" and "timer s a = Some due"
      and "run (Unlock (adir (attempts s a)) # es) s = Some s'" and "microtasks s' = []"
  shows "acquired (attempts s' a) = Fulfilled True
       \<and> (\<exists>es1 es2 s1 l'. es = es1 @ es2
             \<and> run (Unlock (adir (attempts s a)) # es1) s = Some s1 \<and> run es2 s1 = Some s'
             \<and> acquired (attempts s1 a) = Fulfilled True \<and> own (attempts s1 a) = Some l'
             \<and> l' \<noteq> l \<and> next_lock s \<le> l'
             \<and> cacheDirectories s1 (adir (attempts s a)) = Some l' \<and> \<not> fulfilled (locks s1 l'))"
proof -
  let ?d = "adir (attempts s a)"
  let ?u = "snd (unlockDirectory ?d s)"
  have i: "lock_invariant s" using assms(1) by (rule inv_reachable)
  have l: "l < next_lock s" using i assms(2) by (auto simp: lock_invariant_def contending_def)
  have iu: "lock_invariant ?u" using i by (rule inv_unlock)
  have h: "handing_over a l (next_lock s) ?d ?u" using i assms(2) by (rule unlock_hands_over)
  have r: "run es ?u = Some s'" using assms(4) by simp
  from hand_over_completes[OF h r assms(5)] obtain es1 es2 s1 where
    e: "es = es1 @ es2" and r1: "run es1 ?u = Some s1" and r2: "run es2 s1 = Some s'"
    and g: "registered a (next_lock s) ?d s1" by blast
  from g obtain l' where a1: "a < next_attempt s1" and a2: "acquired (attempts s1 a) = Fulfilled True"
    and n: "next_lock s \<le> l'" and o: "own (attempts s1 a) = Some l'"
    and c: "cacheDirectories s1 ?d = Some l'" and f: "\<not> fulfilled (locks s1 l')"
    by (auto simp: registered_def)
  have i1: "lock_invariant s1" using iu r1 by (rule inv_run)
  have fin: "acquired (attempts s' a) = Fulfilled True"
    using acquired_stable_run[OF i1 a1 a2 r2] .
  have ne: "l' \<noteq> l" using l n by simp
  have r1': "run (Unlock ?d # es1) s = Some s1" using r1 by simp
  show ?thesis using fin e r1' r2 a2 o ne n c f by blast
qed


theorem contender_acquires_after_release_witness:
  "reachable contended0 \<and> contending 1 0 contended0 \<and> timer contended0 1 = Some 500
   \<and> adir (attempts contended0 1) = ''.npc/storage''
   \<and> (\<exists>s'. run [Unlock ''.npc/storage'', Microtask, Microtask] contended0 = Some s'
             \<and> microtasks s' = [] \<and> acquired (attempts s' 1) = Fulfilled True)"
proof -
  have "run [Lock ''.npc/storage'', Microtask, Lock ''.npc/storage'', Microtask] init
          = Some contended0"
    by (simp add: contended0_def held0_def init_def promise_defs lockDirectory_def
          lookup_def store_record_def object_prototype_names_def Let_def)
  then have r: "reachable contended0"
    unfolding reachable_def by blast
  have c: "contending 1 0 contended0" and t: "timer contended0 1 = Some 500"
    and d: "adir (attempts contended0 1) = ''.npc/storage''"
    by (simp_all add: contended0_def held0_def contending_def init_def promise_defs
          lockDirectory_def lookup_def store_record_def object_prototype_names_def Let_def)
  have "\<exists>s'. run (Unlock (adir (attempts contended0 1)) # [Microtask, Microtask]) contended0
               = Some s' \<and> microtasks s' = []"
    unfolding d
    by (simp add: contended0_def held0_def init_def promise_defs lockDirectory_def
          resolve_lock_def unlockDirectory_def lookup_def store_record_def
          object_prototype_names_def Let_def)
  then obtain s' where
    u: "run (Unlock (adir (attempts contended0 1)) # [Microtask, Microtask]) contended0 = Some s'"
    and m: "microtasks s' = []"
    by blast
  have "acquired (attempts s' 1) = Fulfilled True"
    using contender_acquires_after_release [OF r c t u m] by blast
  moreover have "run [Unlock ''.npc/storage'', Microtask, Microtask] contended0 = Some s'"
    using u unfolding d .
  ultimately show ?thesis
    using r c t d m by blast
qed

text \<open>What does hold of the registry: a record that is an own property is live, and
  releasing a directory under which a read finds nothing returns \<^verbatim>\<open>true\<close> and changes
  nothing.\<close>

lemma own_records_are_live:
  "reachable s \<Longrightarrow> cacheDirectories s d = Some l \<Longrightarrow> \<not> fulfilled (locks s l)"
  using inv_reachable by (auto simp: lock_invariant_def)

lemma unlock_absent_changes_nothing:
  "lookup s d = Absent \<Longrightarrow> unlockDirectory d s = (Inr True, s)"
  by (simp add: unlockDirectory_def)

text \<open>
  C8, evaluated. Three runs from the empty registry.
  \<^item> Two engines are constructed on \<^verbatim>\<open>.npc/storage\<close> in the same synchronous run. Both
    calls of \<^verbatim>\<open>#lockDirectory\<close> find no record (the record is stored by the callback,
    a job later), both are fulfilled, and each has created a record of its own: two live
    records for one directory, of which the registry holds the second.
  \<^item> The directory is \<^verbatim>\<open>constructor\<close>. Nothing is stored under it, yet releasing it
    throws: the read of line 77 finds the function every object inherits, and line 80
    calls its \<^verbatim>\<open>unlock\<close>. Through the methods: of two engines constructed together on
    that directory, one closes, and \<^verbatim>\<open>close()\<close> of the other is rejected.
  \<^item> The directory is \<^verbatim>\<open>__proto__\<close>. After acquisition and release the registry still
    yields the released record under that name.
\<close>

theorem two_holders_and_failing_release:
  "(\<exists>s. run [Lock ''.npc/storage'', Lock ''.npc/storage'', Microtask, Microtask] init = Some s
        \<and> acquired (attempts s 0) = Fulfilled True \<and> acquired (attempts s 1) = Fulfilled True
        \<and> own (attempts s 0) = Some 0 \<and> own (attempts s 1) = Some 1
        \<and> \<not> fulfilled (locks s 0) \<and> \<not> fulfilled (locks s 1)
        \<and> cacheDirectories s ''.npc/storage'' = Some 1)
   \<and> cacheDirectories init ''constructor'' = None
   \<and> unlockDirectory ''constructor'' init = (Inl UnlockNotAFunction, init)
   \<and> (\<exists>s. run [Lock ''constructor'', Lock ''constructor'', Microtask, Microtask,
               Unlock ''constructor''] init = Some s
        \<and> acquired (attempts s 1) = Fulfilled True
        \<and> cacheDirectories s ''constructor'' = None
        \<and> fst (close engine1 s) = Rejected UnlockNotAFunction)
   \<and> (\<exists>s. run [Lock ''__proto__'', Microtask, Unlock ''__proto__''] init = Some s
        \<and> lookup s ''__proto__'' = Record 0 \<and> fulfilled (locks s 0))"
  by (simp add: init_def promise_defs lockDirectory_def resolve_lock_def unlockDirectory_def
        lookup_def store_record_def object_prototype_names_def Let_def engine_defs engine1_def
        constructor_def ready_of_def)


section \<open>Properties of overlapping calls\<close>

lemmas q_defs = idle_def suspend_def limiter_schedule_def maxConcurrent_def

lemma limiter_invariant_step:
  assumes "limiter_invariant s" and "qstep ct e s = Some s'"
  shows "limiter_invariant s'"
proof (cases e)
  case (Invoke m)
  with assms show ?thesis by (cases m) (auto simp: limiter_invariant_def q_defs)
next
  case (Resume now)
  with assms(2) obtain c cs where c: "continuations s = c # cs"
    and s': "s' = resume ct now c (s\<lparr>continuations := cs\<rparr>)"
    by (auto split: list.splits)
  show ?thesis using assms(1) unfolding s'
    by (cases c) (auto simp: limiter_invariant_def q_defs split: option.splits)
next
  case Begin
  with assms show ?thesis
    by (auto simp: limiter_invariant_def q_defs split: list.splits if_splits)
next
  case Finish
  with assms show ?thesis
    by (auto simp: limiter_invariant_def q_defs split: list.splits)
qed

lemma limiter_invariant_run:
  "limiter_invariant s \<Longrightarrow> qrun ct es s = Some s' \<Longrightarrow> limiter_invariant s'"
  by (induction es arbitrary: s) (auto split: option.splits dest: limiter_invariant_step)

lemma one_call_at_a_time_in_scheduling_order:
  assumes "qrun ct es idle = Some s"
  shows "length (executing s) \<le> 1 \<and> applied s @ waiting s = scheduled s"
proof -
  have "limiter_invariant (idle :: 'a qstate)" by (simp add: limiter_invariant_def q_defs)
  from limiter_invariant_run[OF this assms] show ?thesis
    by (simp add: limiter_invariant_def maxConcurrent_def)
qed

text \<open>One call at a time, the job queue and the definitions of the methods agree on what
  the store receives.\<close>

lemma single_get_agrees:
  assumes "ready e = Fulfilled ()" and "\<not> stopped e"
  shows "\<exists>s. qrun (getTtl e) [Invoke (CallGet k), Resume now, Begin, Finish] idle = Some s
           \<and> continuations s = [] \<and> waiting s = [] \<and> executing s = []
           \<and> received (snd (get e k)) = received e @ applied s"
  using assms by (simp add: q_defs engine_defs)

lemma single_del_agrees:
  assumes "ready e = Fulfilled ()" and "\<not> stopped e"
  shows "\<exists>s. qrun (getTtl e) [Invoke (CallDel k), Resume now, Begin, Finish] idle = Some s
           \<and> continuations s = [] \<and> waiting s = [] \<and> executing s = []
           \<and> received (snd (del e k)) = received e @ applied s"
  using assms by (simp add: q_defs engine_defs)

lemma single_set_agrees:
  assumes "ready e = Fulfilled ()" and "\<not> stopped e"
  shows "\<exists>es s. qrun (getTtl e) (Invoke (CallSet k v t) # Resume now # es) idle = Some s
            \<and> continuations s = [] \<and> waiting s = [] \<and> executing s = []
            \<and> received (snd (set_item now e k v t)) = received e @ applied s"
proof (cases "t = None \<and> (\<exists>x. getTtl e k = Some x \<and> x \<noteq> 0 \<and> x - now < 0)")
  case True
  show ?thesis
    apply (rule exI[of _ "[Resume now, Begin, Finish]"])
    using True assms
    by (auto simp: q_defs truthy_def engine_defs split: promise.splits)
next
  case False
  show ?thesis
    apply (rule exI[of _ "[Begin, Finish]"])
    using False assms
    by (cases t; cases "getTtl e k")
       (auto simp: q_defs truthy_def engine_defs split: promise.splits)
qed

lemma overtaking_step:
  assumes "overtaking k v n s" and "qstep ct e s = Some s'" and "\<And>m. e \<noteq> Invoke m"
  shows "overtaking k v n s'"
proof (cases e)
  case (Invoke m)
  with assms(3)[of m] show ?thesis by simp
next
  case (Resume now)
  with assms(1,2) show ?thesis
    by (auto simp: overtaking_def q_defs split: list.splits)
next
  case Begin
  with assms(1,2) show ?thesis
    by (auto simp: overtaking_def split: list.splits if_splits)
next
  case Finish
  with assms(1,2) show ?thesis
    by (auto simp: overtaking_def split: list.splits)
qed

lemma overtaking_run:
  "overtaking k v n s \<Longrightarrow> qrun ct es s = Some s' \<Longrightarrow> (\<And>e m. e \<in> set es \<Longrightarrow> e \<noteq> Invoke m) \<Longrightarrow>
   overtaking k v n s'"
proof (induction es arbitrary: s)
  case Nil
  then show ?case by simp
next
  case (Cons e es)
  from Cons.prems(2) obtain s2 where st: "qstep ct e s = Some s2" and rn: "qrun ct es s2 = Some s'"
    by (auto split: option.splits)
  have "overtaking k v n s2"
    using overtaking_step[OF Cons.prems(1) st] Cons.prems(3) by simp
  then show ?case using Cons.IH[OF _ rn] Cons.prems(3) by simp
qed

lemma removal_always_applied_last:
  assumes "limiter_invariant s" and "overtaking k v n s"
      and "qrun ct es s = Some s'" and "\<And>e m. e \<in> set es \<Longrightarrow> e \<noteq> Invoke m"
      and "continuations s' = []" and "waiting s' = []"
  shows "applied s' = [UpdateItem k v (Some n), RemoveItem k]"
proof -
  have "overtaking k v n s'" using overtaking_run[OF assms(2,3)] assms(4) by blast
  moreover have "limiter_invariant s'" using limiter_invariant_run[OF assms(1,3)] .
  ultimately show ?thesis using assms(5,6) by (auto simp: overtaking_def limiter_invariant_def)
qed

text \<open>
  C9, evaluated. The owning cache reports an expiration of 500 for the key \<^verbatim>\<open>past\<close>,
  and the time is 1000. The caller issues \<^verbatim>\<open>set('past', 1)\<close> and then
  \<^verbatim>\<open>set('past', 2, 1000)\<close>. Issued one at a time, the store receives the removal of the
  first and then the upsert of the second. Issued without waiting, the first \<^verbatim>\<open>set\<close>
  resumes, finds the expiration passed and calls \<^verbatim>\<open>this.del\<close>, which suspends once
  more; the second \<^verbatim>\<open>set\<close> resumes before it and reaches the limiter first. The store
  receives the upsert of the second call and then the removal of the first: one call at
  a time, but not in the order of the calls. By \<open>removal_always_applied_last\<close> every
  way of running the jobs ends so.
\<close>

theorem later_set_overtakes_expired_set:
  "received (snd (set_item 1000 (snd (set_item 1000 engine0 ''past'' (Some 1) None))
                    ''past'' (Some 2) (Some 1000)))
     = [RemoveItem ''past'', UpdateItem ''past'' (Some 2) (Some 1000)]
   \<and> qrun cache_ttl0
        [Invoke (CallSet ''past'' (Some (1::nat)) None),
         Invoke (CallSet ''past'' (Some 2) (Some 1000)),
         Resume 1000, Resume 1000, Resume 1000, Begin, Finish, Begin, Finish] idle
     = Some \<lparr>continuations = [], waiting = [], executing = [],
             applied = [UpdateItem ''past'' (Some 2) (Some 1000), RemoveItem ''past''],
             scheduled = [UpdateItem ''past'' (Some 2) (Some 1000), RemoveItem ''past'']\<rparr>"
  by (simp add: q_defs truthy_def engine_defs input_defs)

end
